theory Spec2Isabelle
  imports Complex_Main "HOL-Library.Sublist"
begin

section \<open>SnapLaw: risk-clause detection and scoring (utils.py)\<close>

text \<open>
  The three pure functions of \<^verbatim>\<open>utils.py\<close> are embedded here:
  \<^verbatim>\<open>detect_risk_clauses\<close>, \<^verbatim>\<open>calculate_complexity_score\<close> and
  \<^verbatim>\<open>calculate_risk_score\<close>, together with the module constant
  \<^verbatim>\<open>RISK_PATTERNS\<close>.

  Conventions of the embedding.
  \<^item> A Python \<^verbatim>\<open>str\<close> read from a document is a list of code points, each a natural
    number, so that the length of a text counts what \<^verbatim>\<open>len\<close> counts. The string
    literals of the source (patterns, labels, legal terms) are all ASCII and are written as
    \<open>string\<close> literals; \<open>py_str\<close> gives their code points.
  \<^item> A Python \<^verbatim>\<open>float\<close> is a \<open>real\<close>: arithmetic is exact, rounding is not modelled.
    A Python \<^verbatim>\<open>int\<close> is an \<open>int\<close>.
  \<^item> A dictionary with a fixed set of keys is a record; the ordered dictionary
    \<^verbatim>\<open>RISK_PATTERNS\<close> is an association list in insertion order.
  \<^item> A raised exception is the left summand of a result.
\<close>

subsection \<open>Characters and string methods\<close>

type_synonym codepoint = nat

type_synonym str = "codepoint list"

definition py_str :: "string \<Rightarrow> str" where
  "py_str s = map of_char s"

text \<open>
  The lowercase form of one code point as one code point, which is what the regular
  expression engine compares under \<^verbatim>\<open>re.IGNORECASE\<close>: A-Z and U+00C0..U+00DE (without
  the multiplication sign U+00D7) move up by 32; the capital I with dot U+0130 gives
  \<^verbatim>\<open>i\<close>, the capital Y with diaeresis U+0178 gives U+00FF, the capital sharp s U+1E9E
  gives U+00DF, the Kelvin sign U+212A gives \<^verbatim>\<open>k\<close> and the Angstrom sign U+212B gives
  U+00E5. These are all the code points whose lowercase form lies below 256. Every other
  code point is left as it is. Where Python puts a small letter from U+0100 on for a
  capital one, the three functions cannot tell the difference: neither code point is
  ASCII, so the same literals of the patterns and the same legal terms match both, and
  the sentences are cut from the original text.
\<close>

definition to_lower :: "codepoint \<Rightarrow> codepoint" where
  "to_lower c =
     (if (65 \<le> c \<and> c \<le> 90) \<or> (192 \<le> c \<and> c \<le> 222 \<and> c \<noteq> 215) then c + 32
      else if c = 304 then 105
      else if c = 376 then 255
      else if c = 7838 then 223
      else if c = 8490 then 107
      else if c = 8491 then 229
      else c)"

text \<open>\<^verbatim>\<open>str.lower\<close>: code point by code point, where U+0130 alone becomes two code
  points, \<^verbatim>\<open>i\<close> and the combining dot above U+0307. The lowercase text of a document
  with that letter is longer than the document.\<close>

definition lower_cp :: "codepoint \<Rightarrow> str" where
  "lower_cp c = (if c = 304 then [105, 775] else [to_lower c])"

definition lower :: "str \<Rightarrow> str" where
  "lower s = concat (map lower_cp s)"

text \<open>\<^verbatim>\<open>str.isspace\<close> on one code point: TAB..CR, FS..US, space, NEL, NBSP, U+1680,
  U+2000..U+200A, U+2028, U+2029, U+202F, U+205F, U+3000.\<close>

definition is_space :: "codepoint \<Rightarrow> bool" where
  "is_space c =
     ((9 \<le> c \<and> c \<le> 13) \<or> (28 \<le> c \<and> c \<le> 32) \<or> c = 133 \<or> c = 160 \<or> c = 5760
      \<or> (8192 \<le> c \<and> c \<le> 8202) \<or> c = 8232 \<or> c = 8233 \<or> c = 8239 \<or> c = 8287
      \<or> c = 12288)"

text \<open>\<^verbatim>\<open>s.strip()\<close>\<close>

definition strip :: "str \<Rightarrow> str" where
  "strip s = rev (dropWhile is_space (rev (dropWhile is_space s)))"

text \<open>\<^verbatim>\<open>s.split()\<close>: the maximal runs of non-whitespace characters.\<close>

function py_split :: "str \<Rightarrow> str list" where
  "py_split s =
     (case dropWhile is_space s of
        [] \<Rightarrow> []
      | x # xs \<Rightarrow> takeWhile (\<lambda>c. \<not> is_space c) (x # xs)
                 # py_split (dropWhile (\<lambda>c. \<not> is_space c) xs))"
  by pat_completeness auto
termination
proof (relation "measure length", goal_cases)
  case 1
  show ?case by simp
next
  case (2 s x xs)
  have "length (dropWhile (\<lambda>c. \<not> is_space c) xs) \<le> length xs"
    by (rule length_dropWhile_le)
  moreover have "length (x # xs) \<le> length s"
    using length_dropWhile_le [of is_space s] 2 by simp
  ultimately show ?case by simp
qed

declare py_split.simps [simp del]

text \<open>\<^verbatim>\<open>s[i:j]\<close> for \<open>0 \<le> i\<close> and \<open>0 \<le> j\<close>.\<close>

definition slice :: "str \<Rightarrow> nat \<Rightarrow> nat \<Rightarrow> str" where
  "slice s i j = take (j - i) (drop i s)"

text \<open>\<^verbatim>\<open>s.find(c, b)\<close>: the least index \<open>i \<ge> b\<close> with \<open>s[i] = c\<close>, or \<open>-1\<close>.\<close>

fun index_from :: "codepoint \<Rightarrow> str \<Rightarrow> nat \<Rightarrow> int" where
  "index_from c [] pos = - 1"
| "index_from c (x # xs) pos = (if x = c then int pos else index_from c xs (Suc pos))"

definition py_find :: "str \<Rightarrow> codepoint \<Rightarrow> nat \<Rightarrow> int" where
  "py_find s c b = index_from c (drop b s) b"

text \<open>\<^verbatim>\<open>s.rfind(c, 0, e)\<close>: the greatest index \<open>i < e\<close> with \<open>s[i] = c\<close>, or \<open>-1\<close>.\<close>

fun last_index :: "codepoint \<Rightarrow> str \<Rightarrow> nat \<Rightarrow> int \<Rightarrow> int" where
  "last_index c [] pos seen = seen"
| "last_index c (x # xs) pos seen =
     last_index c xs (Suc pos) (if x = c then int pos else seen)"

definition py_rfind :: "str \<Rightarrow> codepoint \<Rightarrow> nat \<Rightarrow> int" where
  "py_rfind s c e = last_index c (take e s) 0 (- 1)"

subsection \<open>The regular expressions of the catalog\<close>

text \<open>
  The patterns of \<^verbatim>\<open>RISK_PATTERNS\<close> use three constructs of Python's \<^verbatim>\<open>re\<close> syntax:
  a literal character, the dot, and a single character or dot followed by \<^verbatim>\<open>*\<close> or
  \<^verbatim>\<open>?\<close>. \<open>compile\<close> reads a pattern of that fragment.
\<close>

datatype atom = Lit char | AnyChar

datatype item = One atom | Opt atom | Star atom

definition parse_atom :: "char \<Rightarrow> atom" where
  "parse_atom c = (if c = CHR ''.'' then AnyChar else Lit c)"

fun compile :: "string \<Rightarrow> item list" where
  "compile [] = []"
| "compile [c] = [One (parse_atom c)]"
| "compile (c # d # r) =
     (if d = CHR ''*'' then Star (parse_atom c) # compile r
      else if d = CHR ''?'' then Opt (parse_atom c) # compile r
      else One (parse_atom c) # compile (d # r))"

text \<open>
  One code point of the text against one atom, under \<^verbatim>\<open>re.IGNORECASE\<close> and without
  \<^verbatim>\<open>re.DOTALL\<close>. The dot matches everything but the newline. A literal matches a code
  point with the same one-code-point lowercase form; besides, the engine lets \<^verbatim>\<open>i\<close>
  match the dotless i U+0131 and \<^verbatim>\<open>s\<close> match the long s U+017F.
\<close>

fun atom_ok :: "atom \<Rightarrow> codepoint \<Rightarrow> bool" where
  "atom_ok AnyChar c = (c \<noteq> 10)"
| "atom_ok (Lit p) c =
     (let lo = to_lower (of_char p)
      in to_lower c = lo \<or> (lo = 105 \<and> c = 305) \<or> (lo = 115 \<and> c = 383))"

text \<open>
  The backtracking matcher anchored at the head of \<open>s\<close>: the number of characters of the
  first match in the engine's priority order, where \<^verbatim>\<open>*\<close> and \<^verbatim>\<open>?\<close> are greedy
  (they take a character first and give it back only when the rest fails).
\<close>

fun match_items :: "item list \<Rightarrow> str \<Rightarrow> nat option" where
  "match_items [] s = Some 0"
| "match_items (One a # r) [] = None"
| "match_items (One a # r) (c # cs) =
     (if atom_ok a c then map_option Suc (match_items r cs) else None)"
| "match_items (Opt a # r) [] = match_items r []"
| "match_items (Opt a # r) (c # cs) =
     (if atom_ok a c
      then (case match_items r cs of
              Some n \<Rightarrow> Some (Suc n)
            | None \<Rightarrow> match_items r (c # cs))
      else match_items r (c # cs))"
| "match_items (Star a # r) [] = match_items r []"
| "match_items (Star a # r) (c # cs) =
     (if atom_ok a c
      then (case match_items (Star a # r) cs of
              Some n \<Rightarrow> Some (Suc n)
            | None \<Rightarrow> match_items r (c # cs))
      else match_items r (c # cs))"

text \<open>
  \<^verbatim>\<open>re.finditer\<close>: the non-overlapping matches from left to right, each as
  \<open>(match.start(), match.end())\<close>. \<open>s\<close> is the text from position \<open>pos\<close> on. After a
  match of \<open>n > 0\<close> characters the scan resumes behind it; after an empty match, and
  where nothing matches, it resumes one character further.
\<close>

function finditer_from :: "item list \<Rightarrow> str \<Rightarrow> nat \<Rightarrow> (nat \<times> nat) list" where
  "finditer_from re [] pos =
     (case match_items re [] of None \<Rightarrow> [] | Some n \<Rightarrow> [(pos, pos + n)])"
| "finditer_from re (c # cs) pos =
     (case match_items re (c # cs) of
        None \<Rightarrow> finditer_from re cs (Suc pos)
      | Some n \<Rightarrow> (pos, pos + n) # finditer_from re (drop (n - 1) cs) (pos + max 1 n))"
  by pat_completeness auto
termination
  by (relation "measure (\<lambda>(re, s, pos). length s)") auto

definition finditer :: "string \<Rightarrow> str \<Rightarrow> (nat \<times> nat) list" where
  "finditer pattern s = finditer_from (compile pattern) s 0"

subsection \<open>The catalog\<close>

record risk_info =
  patterns :: "string list"
  info_type :: string
  info_severity :: string
  info_explanation :: string

definition RISK_PATTERNS :: "(string \<times> risk_info) list" where
  "RISK_PATTERNS =
    [(''binding_arbitration'',
      \<lparr>patterns = [''binding arbitration'', ''arbitration clause'',
                   ''waive.*right.*jury trial'', ''resolve.*disputes.*arbitration'',
                   ''mandatory arbitration''],
       info_type = ''Binding Arbitration'',
       info_severity = ''High'',
       info_explanation = ''You may be giving up your right to sue in court and must resolve disputes through arbitration.''\<rparr>),
     (''non_refundable'',
      \<lparr>patterns = [''non-refundable'', ''no refunds?'', ''all sales final'',
                   ''payments?.*not.*refund'', ''fees are final''],
       info_type = ''Non-refundable'',
       info_severity = ''Medium'',
       info_explanation = ''You may not be able to get your money back under any circumstances.''\<rparr>),
     (''automatic_renewal'',
      \<lparr>patterns = [''automatic.*renewal'', ''auto.*renew'', ''automatically.*extend'',
                   ''renew.*unless.*cancel'', ''auto-renewal''],
       info_type = ''Auto-renewal'',
       info_severity = ''Medium'',
       info_explanation = ''The contract will automatically renew unless you actively cancel it.''\<rparr>),
     (''liability_waiver'',
      \<lparr>patterns = [''waive.*liability'', ''not.*liable.*damages'', ''disclaim.*warranties'',
                   ''use.*at.*own.*risk'', ''hold harmless''],
       info_type = ''Liability Waiver'',
       info_severity = ''High'',
       info_explanation = ''The company may not be responsible for damages or problems that occur.''\<rparr>),
     (''data_collection'',
      \<lparr>patterns = [''collect.*personal.*data'', ''share.*information.*third.*parties'',
                   ''sell.*data'', ''tracking.*cookies'', ''personal information''],
       info_type = ''Data Collection'',
       info_severity = ''Medium'',
       info_explanation = ''Your personal information may be collected, stored, or shared with other companies.''\<rparr>),
     (''termination_rights'',
      \<lparr>patterns = [''terminate.*at.*will'', ''suspend.*account.*any.*time'',
                   ''discontinue.*service.*notice'', ''modify.*terms.*without.*notice''],
       info_type = ''Unfair Termination'',
       info_severity = ''High'',
       info_explanation = ''The company can end the agreement or change terms with little or no notice.''\<rparr>)]"

subsection \<open>detect_risk_clauses\<close>

text \<open>A finding: the dictionary with the keys \<^verbatim>\<open>text\<close>, \<^verbatim>\<open>type\<close>, \<^verbatim>\<open>severity\<close>,
  \<^verbatim>\<open>explanation\<close>.\<close>

record clause =
  clause_text :: str
  clause_type :: string
  severity :: string
  explanation :: string

text \<open>The sentence around a match: from behind the last full stop before
  \<^verbatim>\<open>match.start()\<close> to the first full stop from \<^verbatim>\<open>match.end()\<close> on, in the original
  text, stripped.\<close>

definition sentence_start :: "str \<Rightarrow> nat \<Rightarrow> nat" where
  "sentence_start text m_start = nat (max 0 (py_rfind text 46 m_start + 1))"

definition sentence_end :: "str \<Rightarrow> nat \<Rightarrow> nat" where
  "sentence_end text m_end =
     (let e = py_find text 46 m_end
      in if e = - 1 then length text else nat e)"

definition sentence_of :: "str \<Rightarrow> nat \<times> nat \<Rightarrow> str" where
  "sentence_of text m =
     strip (slice text (sentence_start text (fst m)) (sentence_end text (snd m)))"

definition mk_clause :: "risk_info \<Rightarrow> str \<Rightarrow> clause" where
  "mk_clause info sentence =
     \<lparr>clause_text = sentence,
      clause_type = info_type info,
      severity = info_severity info,
      explanation = info_explanation info\<rparr>"

text \<open>The innermost loop, \<^verbatim>\<open>for match in matches\<close>, with the list \<open>risks\<close> threaded
  through: a sentence longer than 20 characters is appended and ends the loop
  (\<^verbatim>\<open>break\<close>), any other match is passed over.\<close>

fun scan_matches :: "risk_info \<Rightarrow> str \<Rightarrow> (nat \<times> nat) list \<Rightarrow> clause list \<Rightarrow> clause list" where
  "scan_matches info text [] risks = risks"
| "scan_matches info text (m # ms) risks =
     (let sentence = sentence_of text m
      in if length sentence > 20 then risks @ [mk_clause info sentence]
         else scan_matches info text ms risks)"

text \<open>\<^verbatim>\<open>for pattern in risk_info["patterns"]\<close>\<close>

definition scan_patterns :: "risk_info \<Rightarrow> str \<Rightarrow> clause list \<Rightarrow> clause list" where
  "scan_patterns info text risks =
     foldl (\<lambda>risks pattern. scan_matches info text (finditer pattern (lower text)) risks)
       risks (patterns info)"

text \<open>\<^verbatim>\<open>for risk_key, risk_info in RISK_PATTERNS.items()\<close>, over any catalog.\<close>

definition detect_in :: "(string \<times> risk_info) list \<Rightarrow> str \<Rightarrow> clause list" where
  "detect_in catalog text =
     foldl (\<lambda>risks (risk_key, info). scan_patterns info text risks) [] catalog"

definition detect_risk_clauses :: "str \<Rightarrow> clause list" where
  "detect_risk_clauses text = detect_in RISK_PATTERNS text"

text \<open>The number of patterns of a catalog.\<close>

definition pattern_count :: "(string \<times> risk_info) list \<Rightarrow> nat" where
  "pattern_count catalog = sum_list (map (\<lambda>(risk_key, info). length (patterns info)) catalog)"

subsection \<open>calculate_complexity_score\<close>

datatype py_error = ZeroDivisionError

text \<open>\<^verbatim>\<open>a / b\<close> on two integers.\<close>

definition truediv :: "int \<Rightarrow> int \<Rightarrow> py_error + real" where
  "truediv a b = (if b = 0 then Inl ZeroDivisionError else Inr (real_of_int a / real_of_int b))"

text \<open>\<^verbatim>\<open>re.split(r'[.!?]+', text)\<close>: the pieces between the maximal runs of
  \<^verbatim>\<open>.\<close>, \<^verbatim>\<open>!\<close> and \<^verbatim>\<open>?\<close>; \<open>cur\<close> is the piece read so far.\<close>

definition is_delim :: "codepoint \<Rightarrow> bool" where
  "is_delim c = (c = 46 \<or> c = 33 \<or> c = 63)"

function split_from :: "str \<Rightarrow> str \<Rightarrow> str list" where
  "split_from cur [] = [cur]"
| "split_from cur (c # cs) =
     (if is_delim c then cur # split_from [] (dropWhile is_delim cs)
      else split_from (cur @ [c]) cs)"
  by pat_completeness auto
termination
proof (relation "measure (\<lambda>(cur, s). length s)", goal_cases)
  case 1
  show ?case by simp
next
  case (2 cur c cs)
  show ?case using length_dropWhile_le [of is_delim cs] by simp
next
  case (3 cur c cs)
  show ?case by simp
qed

definition re_split :: "str \<Rightarrow> str list" where
  "re_split text = split_from [] text"

definition legal_terms :: "string list" where
  "legal_terms =
     [''whereas'', ''heretofore'', ''hereinafter'', ''notwithstanding'', ''aforementioned'',
      ''pursuant'', ''thereof'', ''hereby'', ''hereunder'', ''indemnify'', ''covenant'',
      ''warranty'', ''liability'', ''jurisdiction'', ''arbitration'', ''severability'',
      ''consideration'', ''breach'', ''termination'', ''governing'', ''enforceable'']"

text \<open>\<^verbatim>\<open>[s.strip() for s in sentences if s.strip()]\<close>\<close>

definition sentences_of :: "str \<Rightarrow> str list" where
  "sentences_of text = map strip (filter (\<lambda>s. strip s \<noteq> []) (re_split text))"

definition calculate_complexity_score :: "str \<Rightarrow> py_error + real" where
  "calculate_complexity_score text =
     (let words = py_split text;
          sentences = sentences_of text
      in if sentences = [] then Inr 1
         else
           (case truediv (int (length words)) (int (length sentences)) of
              Inl e \<Rightarrow> Inl e
            | Inr avg_words_per_sentence \<Rightarrow>
               (let legal_term_count =
                      int (length (filter (\<lambda>word. lower word \<in> set (map py_str legal_terms)) words))
                in (case (if words \<noteq> []
                          then (case truediv legal_term_count (int (length words)) of
                                  Inl e \<Rightarrow> Inl e
                                | Inr q \<Rightarrow> Inr (q * 100))
                          else Inr 0) of
                      Inl e \<Rightarrow> Inl e
                    | Inr legal_density \<Rightarrow>
                       (let sentence_complexity = min (avg_words_per_sentence / 15) 2;
                            term_complexity = min (legal_density / 2) 2
                        in Inr (min ((sentence_complexity + term_complexity) * (5 / 2)) 10))))))"

subsection \<open>calculate_risk_score\<close>

text \<open>The loop over \<open>risk_clauses\<close> with the counter \<open>clause_risk\<close> threaded through.\<close>

fun add_clause_risk :: "int \<Rightarrow> clause \<Rightarrow> int" where
  "add_clause_risk clause_risk c =
     (if severity c = ''High'' then clause_risk + 3
      else if severity c = ''Medium'' then clause_risk + 2
      else clause_risk + 1)"

definition calculate_risk_score :: "clause list \<Rightarrow> real \<Rightarrow> int \<Rightarrow> real" where
  "calculate_risk_score risk_clauses complexity word_count =
     (let clause_risk = foldl add_clause_risk 0 risk_clauses;
          length_factor = min (real_of_int word_count / 1000) 2;
          complexity_factor = complexity / 10
      in min ((real_of_int clause_risk * (6 / 10)) + (length_factor * (2 / 10))
              + (complexity_factor * (2 / 10))) 10)"

subsection \<open>Auxiliary notions for the properties\<close>

text \<open>The sentence bounds as the specification words them (section 4.2, step 3): \<open>i\<close> is
  the position behind the nearest full stop before \<open>m_start\<close>, or the start of the document
  if there is none; \<open>j\<close> is the position of the nearest full stop from \<open>m_end\<close> on, or the
  end of the document if there is none.\<close>

definition after_nearest_dot_before :: "str \<Rightarrow> nat \<Rightarrow> nat \<Rightarrow> bool" where
  "after_nearest_dot_before text m_start i \<longleftrightarrow>
     i \<le> m_start \<and> (i = 0 \<or> text ! (i - 1) = 46)
     \<and> (\<forall>j \<in> {i..<m_start}. text ! j \<noteq> 46)"

definition nearest_dot_from :: "str \<Rightarrow> nat \<Rightarrow> nat \<Rightarrow> bool" where
  "nearest_dot_from text m_end i \<longleftrightarrow>
     m_end \<le> i \<and> i \<le> length text \<and> (i = length text \<or> text ! i = 46)
     \<and> (\<forall>j \<in> {m_end..<i}. text ! j \<noteq> 46)"

text \<open>A document that begins with thirty capital letters I with dot (U+0130).\<close>

definition dotted_I_document :: str where
  "dotted_I_document =
     replicate 30 304
     @ py_str ''. Binding arbitration here. Another long sentence follows right here and goes on.''"

text \<open>A pattern whose compiled form begins with a literal that is neither whitespace nor one
  of \<^verbatim>\<open>.\<close>, \<^verbatim>\<open>!\<close>, \<^verbatim>\<open>?\<close>.\<close>

definition starts_with_letter :: "string \<Rightarrow> bool" where
  "starts_with_letter pattern =
     (case compile pattern of
        One (Lit c) # r \<Rightarrow>
          \<not> is_space (to_lower (of_char c)) \<and> \<not> is_delim (to_lower (of_char c))
      | _ \<Rightarrow> False)"

text \<open>The atoms that can consume the last character of a match, and the patterns whose
  matches begin and end with a character that is not whitespace.\<close>

fun nullable :: "item list \<Rightarrow> bool" where
  "nullable [] = True"
| "nullable (One a # r) = False"
| "nullable (Opt a # r) = nullable r"
| "nullable (Star a # r) = nullable r"

fun item_atom :: "item \<Rightarrow> atom" where
  "item_atom (One a) = a"
| "item_atom (Opt a) = a"
| "item_atom (Star a) = a"

fun final_atoms :: "item list \<Rightarrow> atom list" where
  "final_atoms [] = []"
| "final_atoms (it # r) = (if nullable r then [item_atom it] else []) @ final_atoms r"

fun solid_atom :: "atom \<Rightarrow> bool" where
  "solid_atom (Lit c) = (\<not> is_space (to_lower (of_char c)))"
| "solid_atom AnyChar = False"

definition solid_ends :: "string \<Rightarrow> bool" where
  "solid_ends pattern =
     (case compile pattern of
        One a # r \<Rightarrow> solid_atom a \<and> list_all solid_atom (final_atoms (One a # r))
      | _ \<Rightarrow> False)"

subsection \<open>The risk formula as the specification words it\<close>

text \<open>The specification's severity tiers, their weights, and its formula for the risk
  score (section 4.4), kept apart from the code's loop above for comparison.\<close>

datatype tier = Low | Medium | High

fun weight :: "tier \<Rightarrow> int" where
  "weight High = 3"
| "weight Medium = 2"
| "weight Low = 1"

fun tier_name :: "tier \<Rightarrow> string" where
  "tier_name High = ''High''"
| "tier_name Medium = ''Medium''"
| "tier_name Low = ''Low''"

definition risk_formula :: "tier list \<Rightarrow> real \<Rightarrow> int \<Rightarrow> real" where
  "risk_formula ts complexity word_count =
     min (0.6 * real_of_int (sum_list (map weight ts))
          + 0.2 * min (real_of_int word_count / 1000) 2.0
          + 0.2 * (complexity / 10)) 10.0"

section \<open>Properties of calculate_risk_score\<close>

lemma clause_risk_sum:
  "foldl add_clause_risk a cs = a + sum_list (map (add_clause_risk 0) cs)"
  by (induction cs arbitrary: a) (simp_all add: algebra_simps)

lemma weight_of_name: "add_clause_risk 0 c = weight t" if "severity c = tier_name t"
  using that by (cases t) simp_all

lemma clause_risk_tiers:
  "map severity fs = map tier_name ts \<Longrightarrow>
   sum_list (map (add_clause_risk 0) fs) = sum_list (map weight ts)"
proof (induction fs arbitrary: ts)
  case Nil
  then show ?case by simp
next
  case (Cons f fs)
  then obtain t ts' where ts: "ts = t # ts'" by (cases ts) auto
  with Cons.prems have "severity f = tier_name t" and "map severity fs = map tier_name ts'"
    by simp_all
  then show ?case using Cons.IH [of ts'] weight_of_name [of f t] ts by simp
qed

text \<open>
  C2. Whenever the severities of the findings are the names of the tiers \<open>ts\<close>, the
  result of \<open>calculate_risk_score\<close> is the specification's formula
  \<open>min (0.6 * \<Sum> weight + 0.2 * min (word_count / 1000) 2.0 + 0.2 * (complexity / 10)) 10.0\<close>
  with the weights High = 3, Medium = 2, Low = 1. There is no lower clamp: no findings,
  complexity 0.0 and word count 0 give 0.0.
\<close>

theorem calculate_risk_score_formula:
  "(map severity fs = map tier_name ts \<longrightarrow>
      calculate_risk_score fs c w = risk_formula ts c w)
   \<and> calculate_risk_score [] 0 0 = 0"
  by (simp add: calculate_risk_score_def risk_formula_def clause_risk_sum clause_risk_tiers
      mult.commute del: add_clause_risk.simps)

theorem calculate_risk_score_formula_witness:
  "map severity [\<lparr>clause_text = py_str ''a'', clause_type = ''b'', severity = ''High'', explanation = ''c''\<rparr>,
                 \<lparr>clause_text = py_str ''a'', clause_type = ''b'', severity = ''Low'', explanation = ''c''\<rparr>]
     = map tier_name [High, Low]
   \<and> calculate_risk_score
        [\<lparr>clause_text = py_str ''a'', clause_type = ''b'', severity = ''High'', explanation = ''c''\<rparr>,
         \<lparr>clause_text = py_str ''a'', clause_type = ''b'', severity = ''Low'', explanation = ''c''\<rparr>] 8 2000
     = risk_formula [High, Low] 8 2000
   \<and> risk_formula [High, Low] 8 2000 = 296 / 100"
  using calculate_risk_score_formula
    [of "[\<lparr>clause_text = py_str ''a'', clause_type = ''b'', severity = ''High'', explanation = ''c''\<rparr>,
          \<lparr>clause_text = py_str ''a'', clause_type = ''b'', severity = ''Low'', explanation = ''c''\<rparr>]"
        "[High, Low]" 8 2000]
  by (simp add: risk_formula_def)

text \<open>
  C7. Appending one more finding of severity High to the findings never decreases the
  risk score, whatever the findings, the complexity and the word count are.
\<close>

theorem risk_score_high_monotone:
  "severity f = ''High'' \<Longrightarrow>
   calculate_risk_score fs c w \<le> calculate_risk_score (fs @ [f]) c w"
  by (simp add: calculate_risk_score_def clause_risk_sum min_le_iff_disj)

theorem risk_score_high_monotone_witness:
  "severity \<lparr>clause_text = py_str ''a'', clause_type = ''b'', severity = ''High'', explanation = ''c''\<rparr> = ''High''
   \<and> calculate_risk_score [] 0 0
       \<le> calculate_risk_score ([] @ [\<lparr>clause_text = py_str ''a'', clause_type = ''b'', severity = ''High'', explanation = ''c''\<rparr>]) 0 0
   \<and> calculate_risk_score [\<lparr>clause_text = py_str ''a'', clause_type = ''b'', severity = ''High'', explanation = ''c''\<rparr>] 0 0 = 18 / 10"
  using risk_score_high_monotone
    [of "\<lparr>clause_text = py_str ''a'', clause_type = ''b'', severity = ''High'', explanation = ''c''\<rparr>" "[]" 0 0]
  by (simp add: calculate_risk_score_def)

text \<open>
  C9. A finding whose severity string is neither \<^verbatim>\<open>High\<close> nor \<^verbatim>\<open>Medium\<close> adds 1 to
  the clause risk, wherever it stands in the list, and the risk score is the one obtained
  with the severity \<^verbatim>\<open>Low\<close> in its place: an unknown severity string is neither rejected
  nor ignored.
\<close>

theorem other_severity_weighs_as_low:
  "severity f \<noteq> ''High'' \<Longrightarrow> severity f \<noteq> ''Medium'' \<Longrightarrow>
   add_clause_risk n f = n + 1
   \<and> foldl add_clause_risk 0 (fs @ f # gs) = foldl add_clause_risk 0 (fs @ gs) + 1
   \<and> calculate_risk_score (fs @ f # gs) c w
       = calculate_risk_score (fs @ f\<lparr>severity := ''Low''\<rparr> # gs) c w"
  by (simp add: calculate_risk_score_def clause_risk_sum)

theorem other_severity_weighs_as_low_witness:
  "severity \<lparr>clause_text = py_str ''a'', clause_type = ''b'', severity = ''Critical'', explanation = ''c''\<rparr> \<noteq> ''High''
   \<and> severity \<lparr>clause_text = py_str ''a'', clause_type = ''b'', severity = ''Critical'', explanation = ''c''\<rparr> \<noteq> ''Medium''
   \<and> add_clause_risk 0 \<lparr>clause_text = py_str ''a'', clause_type = ''b'', severity = ''Critical'', explanation = ''c''\<rparr> = 1
   \<and> calculate_risk_score [\<lparr>clause_text = py_str ''a'', clause_type = ''b'', severity = ''Critical'', explanation = ''c''\<rparr>] 0 0 = 6 / 10"
  using other_severity_weighs_as_low
    [of "\<lparr>clause_text = py_str ''a'', clause_type = ''b'', severity = ''Critical'', explanation = ''c''\<rparr>" 0 "[]" "[]" 0 0]
  by (simp add: calculate_risk_score_def)

section \<open>Properties of detect_risk_clauses\<close>

subsection \<open>The loops as a concatenation\<close>

lemma scan_matches_find:
  "scan_matches info text ms risks =
     (case find (\<lambda>m. 20 < length (sentence_of text m)) ms of
        None \<Rightarrow> risks
      | Some m \<Rightarrow> risks @ [mk_clause info (sentence_of text m)])"
  by (induction ms) (simp_all add: Let_def)

lemma scan_matches_acc:
  "scan_matches info text ms risks = risks @ scan_matches info text ms []"
  by (simp add: scan_matches_find [of _ _ _ risks] scan_matches_find [of _ _ _ "[]"]
      split: option.split)

lemma scan_patterns_fold:
  "foldl (\<lambda>risks pattern. scan_matches info text (finditer pattern (lower text)) risks) risks ps
   = risks @ concat (map (\<lambda>pattern. scan_matches info text (finditer pattern (lower text)) []) ps)"
proof (induction ps arbitrary: risks)
  case Nil
  show ?case by simp
next
  case (Cons p ps)
  show ?case
    by (simp add: Cons.IH scan_matches_acc [of _ _ _ risks])
qed

lemma scan_patterns_concat:
  "scan_patterns info text risks =
     risks @ concat (map (\<lambda>pattern. scan_matches info text (finditer pattern (lower text)) [])
                      (patterns info))"
  by (simp add: scan_patterns_def scan_patterns_fold)

lemma detect_fold:
  "foldl (\<lambda>risks (risk_key, info). scan_patterns info text risks) risks catalog
   = risks @ concat (map (\<lambda>(risk_key, info). scan_patterns info text []) catalog)"
proof (induction catalog arbitrary: risks)
  case Nil
  show ?case by simp
next
  case (Cons e catalog)
  obtain k info where e: "e = (k, info)" by (cases e)
  show ?case
    by (simp add: e Cons.IH scan_patterns_concat [of _ _ risks] scan_patterns_concat [of _ _ "[]"])
qed

lemma detect_in_concat:
  "detect_in catalog text = concat (map (\<lambda>(risk_key, info). scan_patterns info text []) catalog)"
  by (simp add: detect_in_def detect_fold)

lemma detect_in_set:
  "f \<in> set (detect_in catalog text) \<longleftrightarrow>
   (\<exists>k info p. (k, info) \<in> set catalog \<and> p \<in> set (patterns info)
      \<and> f \<in> set (scan_matches info text (finditer p (lower text)) []))"
  by (auto simp: detect_in_concat scan_patterns_concat)

lemma scan_matches_length: "length (scan_matches info text ms []) \<le> 1"
  by (simp add: scan_matches_find split: option.split)

lemma scan_patterns_length: "length (scan_patterns info text []) \<le> length (patterns info)"
proof -
  have "length (concat (map (\<lambda>p. scan_matches info text (finditer p (lower text)) []) ps))
        \<le> length ps" for ps
  proof (induction ps)
    case Nil
    show ?case by simp
  next
    case (Cons p ps)
    then show ?case using scan_matches_length [of info "text" "finditer p (lower text)"] by simp
  qed
  then show ?thesis by (simp add: scan_patterns_concat)
qed

lemma detect_in_length: "length (detect_in catalog text) \<le> pattern_count catalog"
proof -
  have "length (concat (map (\<lambda>(risk_key, info). scan_patterns info text []) catalog))
        \<le> pattern_count catalog"
  proof (induction catalog)
    case Nil
    show ?case by (simp add: pattern_count_def)
  next
    case (Cons e catalog)
    obtain k info where e: "e = (k, info)" by (cases e)
    show ?case using Cons scan_patterns_length [of info "text"]
      by (simp add: e pattern_count_def)
  qed
  then show ?thesis by (simp add: detect_in_concat)
qed

lemma pattern_count_shipped: "pattern_count RISK_PATTERNS = 29"
  by (simp add: pattern_count_def RISK_PATTERNS_def)

lemma scan_matches_long:
  "f \<in> set (scan_matches info text ms []) \<Longrightarrow>
   \<exists>m \<in> set ms. f = mk_clause info (sentence_of text m) \<and> 20 < length (sentence_of text m)"
  by (induction ms) (auto simp: Let_def split: if_splits)

lemma strip_idem: "strip (strip s) = strip s"
proof -
  define t where "t = dropWhile is_space s"
  define u where "u = rev (dropWhile is_space (rev t))"
  have tu: "t = u @ rev (takeWhile is_space (rev t))"
    using takeWhile_dropWhile_id [of is_space "rev t"] unfolding u_def
    by (metis rev_append rev_rev_ident)
  have "dropWhile is_space u = u"
  proof (cases "u = []")
    case True
    then show ?thesis by simp
  next
    case False
    then have "hd u = hd t" using tu by (metis hd_append2)
    moreover have "t \<noteq> []" using False tu by auto
    then have "\<not> is_space (hd t)" unfolding t_def by (rule hd_dropWhile)
    ultimately show ?thesis using False by (simp add: dropWhile_eq_self_iff)
  qed
  moreover have "rev (dropWhile is_space (rev u)) = u"
    unfolding u_def by simp
  ultimately show ?thesis
    unfolding strip_def t_def [symmetric] u_def [symmetric] by simp
qed

subsection \<open>Evaluation on a given document\<close>

text \<open>The equations that unfold the functions on a document given as a list.\<close>

lemma py_split_Nil: "py_split [] = []"
  by (simp add: py_split.simps [of "[]"])

lemma py_split_Cons:
  "py_split (c # cs) =
     (if is_space c then py_split cs
      else takeWhile (\<lambda>c. \<not> is_space c) (c # cs) # py_split (dropWhile (\<lambda>c. \<not> is_space c) cs))"
  by (cases "is_space c") (simp_all add: py_split.simps [of "c # cs"] py_split.simps [of cs])

lemma length_py_str: "length (py_str s) = length s"
  by (simp add: py_str_def)

lemmas eval_defs = finditer_def py_str_def lower_def lower_cp_def to_lower_def parse_atom_def
  detect_risk_clauses_def detect_in_def scan_patterns_def RISK_PATTERNS_def sentence_of_def
  mk_clause_def Let_def strip_def slice_def is_space_def py_find_def py_rfind_def
  sentence_start_def sentence_end_def

lemma replicate_30:
  "replicate 30 x = [x, x, x, x, x, x, x, x, x, x, x, x, x, x, x, x, x, x, x, x,
                     x, x, x, x, x, x, x, x, x, x]"
  by (simp add: eval_nat_numeral)

lemma detect_arbitration_example:
  "detect_risk_clauses (py_str ''This contract has a binding arbitration clause inside.'')
   = [\<lparr>clause_text = py_str ''This contract has a binding arbitration clause inside'',
       clause_type = ''Binding Arbitration'', severity = ''High'',
       explanation = ''You may be giving up your right to sue in court and must resolve disputes through arbitration.''\<rparr>,
      \<lparr>clause_text = py_str ''This contract has a binding arbitration clause inside'',
       clause_type = ''Binding Arbitration'', severity = ''High'',
       explanation = ''You may be giving up your right to sue in court and must resolve disputes through arbitration.''\<rparr>]"
  by (simp add: eval_defs)

lemma refund_matches_example:
  "finditer ''no refunds?'' (lower (py_str ''No refunds. The seller gives no refunds after thirty days.''))
     = [(0, 10), (29, 39)]
   \<and> sentence_of (py_str ''No refunds. The seller gives no refunds after thirty days.'') (0, 10)
     = py_str ''No refunds''
   \<and> sentence_of (py_str ''No refunds. The seller gives no refunds after thirty days.'') (29, 39)
     = py_str ''The seller gives no refunds after thirty days''"
  by (simp add: eval_defs)

lemma detect_refund_example:
  "detect_risk_clauses (py_str ''No refunds. The seller gives no refunds after thirty days.'')
   = [\<lparr>clause_text = py_str ''The seller gives no refunds after thirty days'',
       clause_type = ''Non-refundable'', severity = ''Medium'',
       explanation = ''You may not be able to get your money back under any circumstances.''\<rparr>]"
  by (simp add: eval_defs)

subsection \<open>Which match of a pattern is reported\<close>

text \<open>
  C3, as stated: only the first match of a pattern is considered, and when its sentence has
  at most 20 characters after trimming the pattern yields no finding. The code does
  otherwise: in the document below the first match of \<^verbatim>\<open>no refunds?\<close> lies in the
  sentence \<^verbatim>\<open>No refunds\<close> of 10 characters, and the second match is reported.
\<close>

theorem first_match_only_counterexample:
  "hd (finditer ''no refunds?'' (lower (py_str ''No refunds. The seller gives no refunds after thirty days.'')))
     = (0, 10)
   \<and> length (sentence_of (py_str ''No refunds. The seller gives no refunds after thirty days.'') (0, 10)) \<le> 20
   \<and> scan_matches (snd (RISK_PATTERNS ! 1))
        (py_str ''No refunds. The seller gives no refunds after thirty days.'')
        (finditer ''no refunds?'' (lower (py_str ''No refunds. The seller gives no refunds after thirty days.''))) []
     = [\<lparr>clause_text = (py_str ''The seller gives no refunds after thirty days''),
         clause_type = ''Non-refundable'', severity = ''Medium'',
         explanation = ''You may not be able to get your money back under any circumstances.''\<rparr>]
   \<and> detect_risk_clauses (py_str ''No refunds. The seller gives no refunds after thirty days.'') \<noteq> []"
  by (simp add: refund_matches_example detect_refund_example RISK_PATTERNS_def mk_clause_def
      length_py_str)

text \<open>
  C3, amended: for each category in catalog order and each of its patterns in list order,
  the matches of the pattern in the lowercased text are tried from left to right; a match
  whose trimmed sentence has at most 20 characters is passed over, and the first match
  whose trimmed sentence is longer than 20 characters yields the pattern's one finding.
  A pattern yields no finding exactly when none of its matches has such a sentence.
\<close>

theorem first_qualifying_match_reported:
  "scan_matches info text ms risks =
     (case find (\<lambda>m. 20 < length (sentence_of text m)) ms of
        None \<Rightarrow> risks
      | Some m \<Rightarrow> risks @ [mk_clause info (sentence_of text m)])
   \<and> detect_in catalog text =
       concat (map (\<lambda>(risk_key, info).
                 concat (map (\<lambda>pattern. scan_matches info text (finditer pattern (lower text)) [])
                          (patterns info)))
               catalog)"
proof (rule conjI)
  show "scan_matches info text ms risks =
     (case find (\<lambda>m. 20 < length (sentence_of text m)) ms of
        None \<Rightarrow> risks
      | Some m \<Rightarrow> risks @ [mk_clause info (sentence_of text m)])"
    by (rule scan_matches_find)
  show "detect_in catalog text =
       concat (map (\<lambda>(risk_key, info).
                 concat (map (\<lambda>pattern. scan_matches info text (finditer pattern (lower text)) [])
                          (patterns info)))
               catalog)"
    by (simp add: detect_in_concat scan_patterns_concat)
qed

subsection \<open>How many findings\<close>

text \<open>
  C4. One pass over the matches of a pattern appends at most one finding, however often the
  pattern matches; so the result is no longer than the number of patterns of the catalog,
  which is 29 for \<^verbatim>\<open>RISK_PATTERNS\<close>.
\<close>

theorem at_most_one_finding_per_pattern:
  "length (scan_matches info text (finditer pattern (lower text)) risks) \<le> Suc (length risks)
   \<and> length (detect_in catalog text) \<le> pattern_count catalog
   \<and> pattern_count RISK_PATTERNS = 29
   \<and> length (detect_risk_clauses text) \<le> 29"
proof -
  have "length (scan_matches info text (finditer pattern (lower text)) risks) \<le> Suc (length risks)"
    using scan_matches_length [of info "text" "finditer pattern (lower text)"]
    by (simp add: scan_matches_acc [of _ _ _ risks])
  moreover have "length (detect_risk_clauses text) \<le> 29"
    using detect_in_length [of RISK_PATTERNS "text"]
    by (simp add: detect_risk_clauses_def pattern_count_shipped)
  ultimately show ?thesis
    by (simp add: detect_in_length pattern_count_shipped)
qed

text \<open>
  C10. In the document \<^verbatim>\<open>This contract has a binding arbitration clause inside.\<close> the
  patterns \<^verbatim>\<open>binding arbitration\<close> and \<^verbatim>\<open>arbitration clause\<close> of the same category
  match within one sentence, and each contributes a finding: the result holds two findings
  with the same type and the same sentence.
\<close>

theorem same_sentence_reported_twice:
  "\<exists>text i j. i < j \<and> j < length (detect_risk_clauses text)
      \<and> clause_type (detect_risk_clauses text ! i) = clause_type (detect_risk_clauses text ! j)
      \<and> clause_text (detect_risk_clauses text ! i) = clause_text (detect_risk_clauses text ! j)"
proof -
  let ?T = "py_str ''This contract has a binding arbitration clause inside.''"
  have "(0::nat) < 1 \<and> 1 < length (detect_risk_clauses ?T)
      \<and> clause_type (detect_risk_clauses ?T ! 0) = clause_type (detect_risk_clauses ?T ! 1)
      \<and> clause_text (detect_risk_clauses ?T ! 0) = clause_text (detect_risk_clauses ?T ! 1)"
    by (simp add: detect_arbitration_example)
  then show ?thesis by blast
qed

subsection \<open>The length of a reported sentence\<close>

text \<open>
  C5. The sentence of every finding is trimmed and has more than 20 characters; a match
  whose trimmed sentence has 20 characters or fewer appends nothing.
\<close>

theorem finding_sentence_longer_than_20:
  "(\<forall>f \<in> set (detect_risk_clauses text).
      20 < length (clause_text f) \<and> strip (clause_text f) = clause_text f)
   \<and> (length (sentence_of text m) \<le> 20 \<longrightarrow>
        scan_matches info text (m # ms) risks = scan_matches info text ms risks)"
proof -
  have "20 < length (clause_text f) \<and> strip (clause_text f) = clause_text f"
    if "f \<in> set (detect_risk_clauses text)" for f
  proof -
    from that obtain i p where
      "f \<in> set (scan_matches i text (finditer p (lower text)) [])"
      unfolding detect_risk_clauses_def detect_in_set by blast
    then obtain m' where "f = mk_clause i (sentence_of text m')"
      and "20 < length (sentence_of text m')"
      using scan_matches_long by blast
    then show ?thesis by (simp add: mk_clause_def sentence_of_def strip_idem)
  qed
  then show ?thesis by simp
qed

theorem finding_sentence_longer_than_20_witness:
  "\<lparr>clause_text = (py_str ''The seller gives no refunds after thirty days''),
     clause_type = ''Non-refundable'', severity = ''Medium'',
     explanation = ''You may not be able to get your money back under any circumstances.''\<rparr>
     \<in> set (detect_risk_clauses (py_str ''No refunds. The seller gives no refunds after thirty days.''))
   \<and> 20 < length (py_str ''The seller gives no refunds after thirty days'')
   \<and> strip (py_str ''The seller gives no refunds after thirty days'')
       = (py_str ''The seller gives no refunds after thirty days'')
   \<and> length (sentence_of (py_str ''No refunds. The seller gives no refunds after thirty days.'') (0, 10)) \<le> 20
   \<and> scan_matches (snd (RISK_PATTERNS ! 1))
         (py_str ''No refunds. The seller gives no refunds after thirty days.'') [(0, 10)] [] = []"
  using finding_sentence_longer_than_20
    [of "py_str ''No refunds. The seller gives no refunds after thirty days.''" "(0, 10)"
        "snd (RISK_PATTERNS ! 1)" "[]" "[]"]
  by (simp add: detect_refund_example refund_matches_example length_py_str)

subsection \<open>The sentence of a finding\<close>

lemma to_lower_space: "is_space x \<Longrightarrow> to_lower x = x"
  by (auto simp: is_space_def to_lower_def)

lemma to_lower_delim: "is_delim x \<Longrightarrow> to_lower x = x"
  by (auto simp: is_delim_def to_lower_def)

lemma lower_cp_blank: "is_space x \<or> is_delim x \<Longrightarrow> lower_cp x = [x]"
  using to_lower_space [of x] to_lower_delim [of x]
  by (auto simp: lower_cp_def is_space_def is_delim_def)

lemma lower_blank: "\<forall>x \<in> set s. is_space x \<or> is_delim x \<Longrightarrow> lower s = s"
  by (induction s) (simp_all add: lower_def lower_cp_blank)

lemma lower_plain: "304 \<notin> set s \<Longrightarrow> lower s = map to_lower s"
  by (induction s) (simp_all add: lower_def lower_cp_def)

lemma finditer_from_no_first:
  "\<forall>x \<in> set s. \<not> atom_ok (Lit c) x \<Longrightarrow> finditer_from (One (Lit c) # r) s pos = []"
  by (induction s arbitrary: pos) (simp_all del: atom_ok.simps)

lemma match_items_le: "match_items re s = Some n \<Longrightarrow> n \<le> length s"
  by (induction re s arbitrary: n rule: match_items.induct)
     (fastforce split: if_splits option.splits)+

lemma finditer_from_bounds:
  "(a, b) \<in> set (finditer_from re s pos) \<Longrightarrow>
   pos \<le> a \<and> a \<le> b \<and> b \<le> pos + length s \<and> match_items re (drop (a - pos) s) = Some (b - a)"
proof (induction re s pos rule: finditer_from.induct)
  case (1 re pos)
  then show ?case using match_items_le [of re "[]"] by (auto split: option.splits)
next
  case (2 re c cs pos)
  show ?case
  proof (cases "match_items re (c # cs)")
    case None
    with "2.prems" have "(a, b) \<in> set (finditer_from re cs (Suc pos))" by simp
    from "2.IH"(1) [OF None this] show ?thesis
      by (auto simp: Suc_diff_le drop_Cons')
  next
    case (Some n)
    then have n: "n \<le> Suc (length cs)" using match_items_le by fastforce
    from "2.prems" Some consider "(a, b) = (pos, pos + n)"
      | "(a, b) \<in> set (finditer_from re (drop (n - 1) cs) (pos + max 1 n))" by auto
    then show ?thesis
    proof cases
      case 1
      then show ?thesis using Some n by simp
    next
      case 2
      have ih: "pos + max 1 n \<le> a \<and> a \<le> b
          \<and> b \<le> pos + max 1 n + length (drop (n - 1) cs)
          \<and> match_items re (drop (a - (pos + max 1 n)) (drop (n - 1) cs)) = Some (b - a)"
        by (rule "2.IH"(2) [OF Some 2])
      have "a - (pos + max 1 n) + (n - 1) = a - pos - 1" using ih by (cases n) auto
      moreover have "0 < a - pos" using ih by auto
      ultimately have "drop (a - (pos + max 1 n)) (drop (n - 1) cs) = drop (a - pos) (c # cs)"
        by (simp add: drop_Cons' add.commute)
      moreover have "pos \<le> a" using ih by auto
      moreover have "b \<le> pos + length (c # cs)" using ih n by (cases n) auto
      ultimately show ?thesis using ih by simp
    qed
  qed
qed

lemma index_from_spec:
  "(index_from c xs pos = - 1 \<and> c \<notin> set xs)
   \<or> (\<exists>i < length xs. index_from c xs pos = int (pos + i) \<and> xs ! i = c \<and> c \<notin> set (take i xs))"
proof (induction xs arbitrary: pos)
  case Nil
  show ?case by simp
next
  case (Cons x xs)
  show ?case
  proof (cases "x = c")
    case True
    then show ?thesis by auto
  next
    case False
    from Cons [of "Suc pos"] show ?thesis
    proof
      assume "index_from c xs (Suc pos) = - 1 \<and> c \<notin> set xs"
      then show ?thesis using False by simp
    next
      assume "\<exists>i < length xs. index_from c xs (Suc pos) = int (Suc pos + i) \<and> xs ! i = c
                \<and> c \<notin> set (take i xs)"
      then obtain i where "i < length xs" "index_from c xs (Suc pos) = int (Suc pos + i)"
        "xs ! i = c" "c \<notin> set (take i xs)" by blast
      then have "Suc i < length (x # xs) \<and> index_from c (x # xs) pos = int (pos + Suc i)
        \<and> (x # xs) ! Suc i = c \<and> c \<notin> set (take (Suc i) (x # xs))"
        using False by simp
      then show ?thesis by blast
    qed
  qed
qed

lemma last_index_spec:
  "(last_index c xs pos seen = seen \<and> c \<notin> set xs)
   \<or> (\<exists>i < length xs. last_index c xs pos seen = int (pos + i) \<and> xs ! i = c
         \<and> c \<notin> set (drop (Suc i) xs))"
proof (induction xs arbitrary: pos seen)
  case Nil
  show ?case by simp
next
  case (Cons x xs)
  let ?seen = "if x = c then int pos else seen"
  from Cons [of "Suc pos" ?seen] show ?case
  proof
    assume a: "last_index c xs (Suc pos) ?seen = ?seen \<and> c \<notin> set xs"
    show ?thesis
    proof (cases "x = c")
      case True
      with a have "0 < length (x # xs) \<and> last_index c (x # xs) pos seen = int (pos + 0)
        \<and> (x # xs) ! 0 = c \<and> c \<notin> set (drop (Suc 0) (x # xs))" by simp
      then show ?thesis by blast
    next
      case False
      with a show ?thesis by simp
    qed
  next
    assume "\<exists>i < length xs. last_index c xs (Suc pos) ?seen = int (Suc pos + i) \<and> xs ! i = c
              \<and> c \<notin> set (drop (Suc i) xs)"
    then obtain i where "i < length xs" "last_index c xs (Suc pos) ?seen = int (Suc pos + i)"
      "xs ! i = c" "c \<notin> set (drop (Suc i) xs)" by blast
    then have "Suc i < length (x # xs) \<and> last_index c (x # xs) pos seen = int (pos + Suc i)
      \<and> (x # xs) ! Suc i = c \<and> c \<notin> set (drop (Suc (Suc i)) (x # xs))"
      by simp
    then show ?thesis by blast
  qed
qed

lemma sentence_end_spec:
  assumes "m_end \<le> length text"
  shows "nearest_dot_from text m_end (sentence_end text m_end)"
proof -
  let ?xs = "drop m_end text"
  from index_from_spec [of 46 ?xs m_end] show ?thesis
  proof
    assume a: "index_from 46 ?xs m_end = - 1 \<and> 46 \<notin> set ?xs"
    then have e: "sentence_end text m_end = length text"
      by (simp add: sentence_end_def py_find_def)
    have "text ! j \<noteq> 46" if "j \<in> {m_end..<length text}" for j
    proof -
      from that have "?xs ! (j - m_end) = text ! j" "j - m_end < length ?xs" by auto
      then show ?thesis using a by (metis nth_mem)
    qed
    then show ?thesis using assms e by (simp add: nearest_dot_from_def)
  next
    assume "\<exists>i < length ?xs. index_from 46 ?xs m_end = int (m_end + i)
              \<and> ?xs ! i = 46 \<and> 46 \<notin> set (take i ?xs)"
    then obtain i where i: "i < length ?xs" "index_from 46 ?xs m_end = int (m_end + i)"
      "?xs ! i = 46" "46 \<notin> set (take i ?xs)" by blast
    then have e: "sentence_end text m_end = m_end + i"
      by (simp add: sentence_end_def py_find_def Let_def)
    have "text ! j \<noteq> 46" if "j \<in> {m_end..<m_end + i}" for j
    proof -
      from that i(1) have "take i ?xs ! (j - m_end) = text ! j" "j - m_end < length (take i ?xs)"
        by auto
      then show ?thesis using i(4) by (metis nth_mem)
    qed
    moreover have "text ! (m_end + i) = 46" using i(1,3) by simp
    ultimately show ?thesis using i(1) e by (simp add: nearest_dot_from_def)
  qed
qed

lemma sentence_start_spec:
  assumes "m_start \<le> length text"
  shows "after_nearest_dot_before text m_start (sentence_start text m_start)"
proof -
  let ?xs = "take m_start text"
  have len: "length ?xs = m_start" using assms by simp
  from last_index_spec [of 46 ?xs 0 "- 1"] show ?thesis
  proof
    assume a: "last_index 46 ?xs 0 (- 1) = - 1 \<and> 46 \<notin> set ?xs"
    then have e: "sentence_start text m_start = 0"
      by (simp add: sentence_start_def py_rfind_def)
    have "text ! j \<noteq> 46" if "j \<in> {0..<m_start}" for j
    proof -
      from that have "?xs ! j = text ! j" "j < length ?xs" using len by auto
      then show ?thesis using a by (metis nth_mem)
    qed
    then show ?thesis using e by (simp add: after_nearest_dot_before_def)
  next
    assume "\<exists>i < length ?xs. last_index 46 ?xs 0 (- 1) = int (0 + i)
              \<and> ?xs ! i = 46 \<and> 46 \<notin> set (drop (Suc i) ?xs)"
    then obtain i where i: "i < m_start" "last_index 46 ?xs 0 (- 1) = int i"
      "?xs ! i = 46" "46 \<notin> set (drop (Suc i) ?xs)" using len by auto
    then have e: "sentence_start text m_start = Suc i"
      by (simp add: sentence_start_def py_rfind_def)
    have "text ! j \<noteq> 46" if "j \<in> {Suc i..<m_start}" for j
    proof -
      from that len have "drop (Suc i) ?xs ! (j - Suc i) = text ! j"
        "j - Suc i < length (drop (Suc i) ?xs)" by auto
      then show ?thesis using i(4) by (metis nth_mem)
    qed
    moreover have "text ! i = 46" using i(1,3) by simp
    ultimately show ?thesis using i(1) e by (simp add: after_nearest_dot_before_def)
  qed
qed

lemma sublist_strip: "sublist (strip s) s"
proof -
  have "suffix (dropWhile is_space s) s" by (rule suffix_dropWhile)
  moreover have "prefix (rev (dropWhile is_space (rev t))) t" for t
    using suffix_dropWhile [of is_space "rev t"] by (simp add: suffix_to_prefix)
  ultimately show ?thesis
    unfolding strip_def
    by (meson prefix_imp_sublist suffix_imp_sublist sublist_order.order_trans)
qed

lemma sublist_slice: "sublist (slice s i j) s"
  unfolding slice_def
  by (meson sublist_take sublist_drop sublist_order.order_trans)

lemma match_items_zero: "match_items re s = Some 0 \<Longrightarrow> nullable re"
  by (induction re s rule: match_items.induct) (auto split: if_splits option.splits)

lemma match_items_last:
  "match_items re s = Some n \<Longrightarrow> 0 < n \<Longrightarrow>
   \<exists>a \<in> set (final_atoms re). atom_ok a (s ! (n - 1))"
proof (induction re s arbitrary: n rule: match_items.induct)
  case (1 s)
  then show ?case by simp
next
  case (2 a r)
  then show ?case by simp
next
  case (3 a r c cs)
  then obtain m where ok: "atom_ok a c" and m: "match_items r cs = Some m" and n: "n = Suc m"
    by (auto split: if_splits)
  show ?case
  proof (cases m)
    case 0
    then show ?thesis using ok m n match_items_zero [of r cs] by simp
  next
    case (Suc k)
    then show ?thesis using "3.IH" [OF ok m] n by auto
  qed
next
  case (4 a r)
  then show ?case using match_items_le [of r "[]" n] by simp
next
  case (5 a r c cs)
  show ?case
  proof (cases "atom_ok a c")
    case False
    then show ?thesis using "5.IH"(3) [OF False] "5.prems" by auto
  next
    case ok: True
    show ?thesis
    proof (cases "match_items r cs")
      case None
      then show ?thesis using "5.IH"(2) [OF ok None] "5.prems" ok by auto
    next
      case (Some m)
      then have n: "n = Suc m" using "5.prems" ok by simp
      show ?thesis
      proof (cases m)
        case 0
        then show ?thesis using ok Some n match_items_zero [of r cs] by simp
      next
        case (Suc k)
        then show ?thesis using "5.IH"(1) [OF ok Some] n by auto
      qed
    qed
  qed
next
  case (6 a r)
  then show ?case using match_items_le [of r "[]" n] by simp
next
  case (7 a r c cs)
  show ?case
  proof (cases "atom_ok a c")
    case False
    then show ?thesis using "7.IH"(3) [OF False] "7.prems" by auto
  next
    case ok: True
    show ?thesis
    proof (cases "match_items (Star a # r) cs")
      case None
      then show ?thesis using "7.IH"(2) [OF ok None] "7.prems" ok by auto
    next
      case (Some m)
      then have n: "n = Suc m" using "7.prems" ok by simp
      show ?thesis
      proof (cases m)
        case 0
        then show ?thesis using ok Some n match_items_zero [of "Star a # r" cs] by simp
      next
        case (Suc k)
        then show ?thesis using "7.IH"(1) [OF ok Some] n by auto
      qed
    qed
  qed
qed

lemma match_items_first:
  "match_items (One a # r) s = Some n \<Longrightarrow> s \<noteq> [] \<and> atom_ok a (hd s) \<and> 0 < n"
  by (cases s) (auto split: if_splits)

lemma solid_not_space: "solid_atom a \<Longrightarrow> atom_ok a (to_lower x) \<Longrightarrow> \<not> is_space x"
proof (cases a)
  case (Lit c)
  assume "solid_atom a" "atom_ok a (to_lower x)"
  with Lit have c: "\<not> is_space (to_lower (of_char c))"
    and e: "to_lower (to_lower x) = to_lower (of_char c) \<or> to_lower x = 305 \<or> to_lower x = 383"
    by (auto simp: Let_def)
  show ?thesis
  proof
    assume sp: "is_space x"
    then have "to_lower x = x" by (rule to_lower_space)
    with e have "x = to_lower (of_char c) \<or> x = 305 \<or> x = 383" by simp
    with sp c show False by (auto simp: is_space_def)
  qed
next
  case AnyChar
  assume "solid_atom a"
  with AnyChar show ?thesis by simp
qed

lemma dropWhile_keeps_middle:
  "M \<noteq> [] \<Longrightarrow> \<not> P (hd M) \<Longrightarrow> \<exists>A'. dropWhile P (A @ M @ B) = A' @ M @ B"
proof (induction A)
  case Nil
  then have "dropWhile P (M @ B) = M @ B" by (cases M) auto
  then show ?case by (metis append_Nil)
next
  case (Cons x A)
  show ?case
  proof (cases "P x")
    case True
    then show ?thesis using Cons by simp
  next
    case False
    then have "dropWhile P ((x # A) @ M @ B) = (x # A) @ M @ B" by simp
    then show ?thesis by blast
  qed
qed

lemma strip_keeps_middle:
  assumes "M \<noteq> []" "\<not> is_space (hd M)" "\<not> is_space (last M)"
  shows "sublist M (strip (A @ M @ B))"
proof -
  from dropWhile_keeps_middle [of M is_space A B] assms obtain A'
    where a: "dropWhile is_space (A @ M @ B) = A' @ M @ B" by blast
  have "rev M \<noteq> []" "\<not> is_space (hd (rev M))" using assms by (simp_all add: hd_rev)
  with dropWhile_keeps_middle [of "rev M" is_space "rev B" "rev A'"] obtain B'
    where b: "dropWhile is_space (rev B @ rev M @ rev A') = B' @ rev M @ rev A'" by blast
  have "strip (A @ M @ B) = A' @ M @ rev B'"
    by (simp add: strip_def a b)
  then show ?thesis by (auto simp: sublist_def)
qed

lemma slice_split: "i \<le> k \<Longrightarrow> k \<le> j \<Longrightarrow> slice s i j = slice s i k @ slice s k j"
proof -
  assume "i \<le> k" "k \<le> j"
  then have "j - i = (k - i) + (j - k)" by simp
  then have "take (j - i) (drop i s) = take (k - i) (drop i s) @ take (j - k) (drop (k - i) (drop i s))"
    by (simp only: take_add)
  then show ?thesis using \<open>i \<le> k\<close> by (simp add: slice_def)
qed

lemma lower_slice: "304 \<notin> set s \<Longrightarrow> lower (slice s a b) = slice (lower s) a b"
proof -
  assume plain: "304 \<notin> set s"
  have "set (slice s a b) \<subseteq> set s"
    unfolding slice_def by (meson set_take_subset set_drop_subset subset_trans)
  with plain have "304 \<notin> set (slice s a b)" by blast
  then show ?thesis
    by (simp add: lower_plain plain) (simp add: slice_def take_map drop_map)
qed

lemma match_in_sentence:
  assumes m: "(a, b) \<in> set (finditer pattern (lower text))" and solid: "solid_ends pattern"
    and plain: "304 \<notin> set text"
  shows "a < b \<and> b \<le> length text \<and> sublist (slice text a b) (sentence_of text (a, b))"
proof -
  have lt: "lower text = map to_lower text" using plain by (rule lower_plain)
  from solid obtain a0 r where re: "compile pattern = One a0 # r" and a0: "solid_atom a0"
    and fin: "list_all solid_atom (final_atoms (One a0 # r))"
    by (auto simp: solid_ends_def split: list.splits item.splits)
  from m have bounds: "a \<le> b" "b \<le> length text"
    and mi: "match_items (One a0 # r) (drop a (lower text)) = Some (b - a)"
    using finditer_from_bounds [of a b "compile pattern" "lower text" 0]
    by (simp_all add: finditer_def re lt)
  from match_items_first [OF mi] have ne: "drop a (lower text) \<noteq> []"
    and first: "atom_ok a0 (hd (drop a (lower text)))" and pos: "0 < b - a" by simp_all
  from pos have ab: "a < b" by simp
  have la: "a < length text" using ab bounds by simp
  have "hd (drop a (lower text)) = to_lower (text ! a)"
    using la by (simp add: hd_drop_conv_nth lt)
  with first a0 have s1: "\<not> is_space (text ! a)" using solid_not_space by simp
  from match_items_last [OF mi pos] obtain a1 where a1: "a1 \<in> set (final_atoms (One a0 # r))"
    and last: "atom_ok a1 (drop a (lower text) ! (b - a - 1))" by blast
  have "drop a (lower text) ! (b - a - 1) = to_lower (text ! (b - 1))"
    using ab bounds by (simp add: lt)
  moreover have "solid_atom a1" using fin a1 by (simp add: list_all_iff)
  ultimately have s2: "\<not> is_space (text ! (b - 1))" using last solid_not_space by simp
  let ?M = "slice text a b"
  have M: "?M \<noteq> []" using ab bounds by (simp add: slice_def)
  have hdM: "hd ?M = text ! a" using ab la by (simp add: slice_def hd_drop_conv_nth)
  have "length ?M = b - a" using bounds by (simp add: slice_def)
  then have "last ?M = ?M ! (b - a - 1)" using M by (simp add: last_conv_nth)
  also have "\<dots> = text ! (b - 1)" using ab bounds by (simp add: slice_def)
  finally have lastM: "last ?M = text ! (b - 1)" .
  have i: "sentence_start text a \<le> a"
    using sentence_start_spec [of a "text"] la by (simp add: after_nearest_dot_before_def)
  have j: "b \<le> sentence_end text b"
    using sentence_end_spec [OF bounds(2)] by (simp add: nearest_dot_from_def)
  have "slice text (sentence_start text a) (sentence_end text b)
        = slice text (sentence_start text a) a @ ?M @ slice text b (sentence_end text b)"
    using slice_split [of "sentence_start text a" a "sentence_end text b" "text"]
      slice_split [of a b "sentence_end text b" "text"] i j bounds by simp
  then have "sublist ?M (sentence_of text (a, b))"
    using strip_keeps_middle [of ?M] M hdM lastM s1 s2 by (simp add: sentence_of_def)
  then show ?thesis using ab bounds by simp
qed

lemma catalog_solid:
  "list_all (\<lambda>(risk_key, info). list_all solid_ends (patterns info)) RISK_PATTERNS"
  by (simp add: RISK_PATTERNS_def solid_ends_def parse_atom_def is_space_def to_lower_def)

lemma after_nearest_dot_before_unique:
  assumes "after_nearest_dot_before text m i" and "after_nearest_dot_before text m i'"
  shows "i = i'"
proof -
  have "\<not> x < y" if "after_nearest_dot_before text m x" "after_nearest_dot_before text m y" for x y
  proof
    assume "x < y"
    with that(2) have "text ! (y - 1) = 46" "y \<le> m"
      by (auto simp: after_nearest_dot_before_def)
    moreover from \<open>x < y\<close> \<open>y \<le> m\<close> have "y - 1 \<in> {x..<m}" by auto
    ultimately show False using that(1) by (auto simp: after_nearest_dot_before_def)
  qed
  from this [of i i'] this [of i' i] assms show ?thesis by auto
qed

lemma nearest_dot_from_unique:
  assumes "nearest_dot_from text m j" and "nearest_dot_from text m j'"
  shows "j = j'"
proof -
  have "\<not> x < y" if "nearest_dot_from text m x" "nearest_dot_from text m y" for x y
  proof
    assume "x < y"
    with that have "text ! x = 46" "x \<in> {m..<y}"
      by (auto simp: nearest_dot_from_def)
    then show False using that(2) by (auto simp: nearest_dot_from_def)
  qed
  from this [of j j'] this [of j' j] assms show ?thesis by auto
qed

text \<open>
  In a document without the capital letter I with dot (U+0130) the lowercase text has the
  length of the document, and the sentence of every finding is as the specification
  describes it: it comes from a match \<open>(m_start, m_end)\<close> of a catalog pattern, it is the
  original text from behind the nearest full stop before \<open>m_start\<close> up to the nearest full
  stop from \<open>m_end\<close> on, stripped, and it contains the matched characters.
\<close>

lemma sentence_span_without_dotted_I:
  assumes plain: "304 \<notin> set text"
  shows "\<forall>f \<in> set (detect_risk_clauses text).
     \<exists>risk_key info pattern m_start m_end i j.
       (risk_key, info) \<in> set RISK_PATTERNS \<and> pattern \<in> set (patterns info)
     \<and> (m_start, m_end) \<in> set (finditer pattern (lower text))
     \<and> m_start < m_end \<and> m_end \<le> length text
     \<and> after_nearest_dot_before text m_start i
     \<and> nearest_dot_from text m_end j
     \<and> clause_text f = strip (slice text i j)
     \<and> sublist (clause_text f) text
     \<and> sublist (slice text m_start m_end) (clause_text f)
     \<and> lower (slice text m_start m_end) = slice (lower text) m_start m_end"
proof
  fix f assume "f \<in> set (detect_risk_clauses text)"
  then obtain k info p where cat: "(k, info) \<in> set RISK_PATTERNS" and p: "p \<in> set (patterns info)"
    and f: "f \<in> set (scan_matches info text (finditer p (lower text)) [])"
    unfolding detect_risk_clauses_def detect_in_set by blast
  from scan_matches_long [OF f] obtain m where m: "m \<in> set (finditer p (lower text))"
    and fm: "f = mk_clause info (sentence_of text m)" by blast
  obtain a b where ab: "m = (a, b)" by (cases m)
  have "solid_ends p" using catalog_solid cat p by (auto simp: list_all_iff)
  with m ab plain
  have c: "a < b" "b \<le> length text" "sublist (slice text a b) (sentence_of text (a, b))"
    using match_in_sentence [of a b p "text"] by simp_all
  have ct: "clause_text f = strip (slice text (sentence_start text a) (sentence_end text b))"
    using fm ab by (simp add: mk_clause_def sentence_of_def)
  have "after_nearest_dot_before text a (sentence_start text a)"
    using sentence_start_spec [of a "text"] c by simp
  moreover have "nearest_dot_from text b (sentence_end text b)"
    using sentence_end_spec [of b "text"] c by simp
  moreover have "sublist (clause_text f) text"
    unfolding ct by (meson sublist_strip sublist_slice sublist_order.order_trans)
  moreover have "sublist (slice text a b) (clause_text f)"
    using c(3) ct by (simp add: sentence_of_def)
  moreover have "lower (slice text a b) = slice (lower text) a b"
    using plain by (rule lower_slice)
  ultimately show "\<exists>risk_key info pattern m_start m_end i j.
       (risk_key, info) \<in> set RISK_PATTERNS \<and> pattern \<in> set (patterns info)
     \<and> (m_start, m_end) \<in> set (finditer pattern (lower text))
     \<and> m_start < m_end \<and> m_end \<le> length text
     \<and> after_nearest_dot_before text m_start i
     \<and> nearest_dot_from text m_end j
     \<and> clause_text f = strip (slice text i j)
     \<and> sublist (clause_text f) text
     \<and> sublist (slice text m_start m_end) (clause_text f)
     \<and> lower (slice text m_start m_end) = slice (lower text) m_start m_end"
    using cat p m ab c ct by blast
qed

lemma dotted_I_match:
  "length dotted_I_document = 111
   \<and> length (lower dotted_I_document) = 141
   \<and> finditer ''binding arbitration'' (lower dotted_I_document) = [(62, 81)]
   \<and> slice (lower dotted_I_document) 62 81 = py_str ''binding arbitration''
   \<and> slice dotted_I_document 32 51 = py_str ''Binding arbitration''"
  by (simp add: dotted_I_document_def eval_defs replicate_30)

lemma dotted_I_detect:
  "detect_risk_clauses dotted_I_document
   = [\<lparr>clause_text = py_str ''Another long sentence follows right here and goes on'',
       clause_type = ''Binding Arbitration'', severity = ''High'',
       explanation = ''You may be giving up your right to sue in court and must resolve disputes through arbitration.''\<rparr>]"
  by (simp add: dotted_I_document_def eval_defs replicate_30)

lemma dotted_I_sentence_without_b:
  "98 \<notin> set (lower (py_str ''Another long sentence follows right here and goes on''))"
  by (simp add: eval_defs)

text \<open>
  C8. The claim has the sentence of every finding contain the match. The offsets of a match
  are positions in the lowercased text, and the code cuts the original text at them. The
  lowercase form of U+0130 has two code points, so in the document that begins with
  thirty of them the lowercased text is thirty code points longer than the document
  (141 against 111). The pattern \<^verbatim>\<open>binding arbitration\<close> matches the lowercased text at
  (62, 81); the words stand in the document at (32, 51), in its second sentence. Around
  62 and 81 the full stops of the document lie at 56 and 110, which bound its third
  sentence, \<^verbatim>\<open>Another long sentence follows right here and goes on\<close>. This is the one
  finding: its sentence has no letter b in either case and does not contain the match.
\<close>

theorem sentence_misses_match_after_dotted_I:
  "length (lower dotted_I_document) = length dotted_I_document + 30
   \<and> finditer ''binding arbitration'' (lower dotted_I_document) = [(62, 81)]
   \<and> slice (lower dotted_I_document) 62 81 = py_str ''binding arbitration''
   \<and> slice dotted_I_document 32 51 = py_str ''Binding arbitration''
   \<and> sentence_start dotted_I_document 62 = 57
   \<and> sentence_end dotted_I_document 81 = 110
   \<and> detect_risk_clauses dotted_I_document
       = [\<lparr>clause_text = py_str ''Another long sentence follows right here and goes on'',
           clause_type = ''Binding Arbitration'', severity = ''High'',
           explanation = ''You may be giving up your right to sue in court and must resolve disputes through arbitration.''\<rparr>]
   \<and> 98 \<notin> set (lower (py_str ''Another long sentence follows right here and goes on''))"
proof -
  have "sentence_start dotted_I_document 62 = 57 \<and> sentence_end dotted_I_document 81 = 110"
    by (simp add: dotted_I_document_def eval_defs replicate_30)
  then show ?thesis
    using dotted_I_match dotted_I_detect dotted_I_sentence_without_b
    by simp
qed

section \<open>Properties of calculate_complexity_score\<close>

text \<open>
  C1. The claim bounds the complexity score from below by 1.0. On the simple text of the
  repository's own test the function returns 0.75: nine words in two sentences give
  \<open>4.5 / 15 = 0.3\<close>, no legal term occurs, and \<open>0.3 * 2.5 = 0.75\<close>.
\<close>

theorem complexity_of_simple_text:
  "calculate_complexity_score (py_str ''This is a simple contract. It has short sentences.'')
   = Inr (3 / 4)"
  by (simp add: calculate_complexity_score_def sentences_of_def re_split_def legal_terms_def
      truediv_def is_delim_def py_split_Nil py_split_Cons eval_defs)

subsection \<open>Documents without a sentence\<close>

lemma finditer_blank:
  assumes "starts_with_letter pattern" and blank: "\<forall>x \<in> set s. is_space x \<or> is_delim x"
  shows "finditer pattern (lower s) = []"
proof -
  from assms(1) obtain c r where re: "compile pattern = One (Lit c) # r"
    and c: "\<not> is_space (to_lower (of_char c))" "\<not> is_delim (to_lower (of_char c))"
    by (auto simp: starts_with_letter_def split: list.splits item.splits atom.splits)
  have "\<not> atom_ok (Lit c) x" if "x \<in> set s" for x
  proof
    assume ok: "atom_ok (Lit c) x"
    from that blank have b: "is_space x \<or> is_delim x" by blast
    then have "to_lower x = x" using to_lower_space to_lower_delim by blast
    with ok have "x = to_lower (of_char c) \<or> x = 305 \<or> x = 383" by (auto simp: Let_def)
    with b c show False by (auto simp: is_space_def is_delim_def)
  qed
  then show ?thesis
    by (simp add: finditer_def re lower_blank [OF blank] finditer_from_no_first del: atom_ok.simps)
qed

lemma catalog_starts_with_letters:
  "list_all (\<lambda>(risk_key, info). list_all starts_with_letter (patterns info)) RISK_PATTERNS"
  by (simp add: RISK_PATTERNS_def starts_with_letter_def parse_atom_def is_space_def is_delim_def
      to_lower_def)

lemma scan_patterns_blank:
  assumes "list_all starts_with_letter (patterns info)"
    and "\<forall>x \<in> set s. is_space x \<or> is_delim x"
  shows "scan_patterns info s [] = []"
  using assms by (auto simp: scan_patterns_concat list_all_iff finditer_blank)

lemma detect_in_blank:
  assumes "list_all (\<lambda>(risk_key, info). list_all starts_with_letter (patterns info)) catalog"
    and "\<forall>x \<in> set s. is_space x \<or> is_delim x"
  shows "detect_in catalog s = []"
  using assms by (auto simp: detect_in_concat list_all_iff scan_patterns_blank)

lemma dropWhile_keeps: "x \<in> set xs \<Longrightarrow> \<not> P x \<Longrightarrow> x \<in> set (dropWhile P xs)"
  by (induction xs) auto

lemma split_from_covers:
  "x \<in> set cur \<or> (x \<in> set s \<and> \<not> is_delim x) \<Longrightarrow> \<exists>piece \<in> set (split_from cur s). x \<in> set piece"
proof (induction cur s rule: split_from.induct)
  case (1 cur)
  then show ?case by simp
next
  case (2 cur c cs)
  show ?case
  proof (cases "is_delim c")
    case True
    show ?thesis
    proof (cases "x \<in> set cur")
      case True
      then show ?thesis using \<open>is_delim c\<close> by simp
    next
      case False
      with "2.prems" True have "x \<in> set cs" "\<not> is_delim x" by auto
      then have "x \<in> set (dropWhile is_delim cs)" by (rule dropWhile_keeps)
      then have "\<exists>piece \<in> set (split_from [] (dropWhile is_delim cs)). x \<in> set piece"
        using "2.IH"(1) [OF True] \<open>\<not> is_delim x\<close> by blast
      then show ?thesis using True by simp
    qed
  next
    case False
    from "2.prems" False have "x \<in> set (cur @ [c]) \<or> (x \<in> set cs \<and> \<not> is_delim x)" by auto
    then show ?thesis using "2.IH"(2) [OF False] False by simp
  qed
qed

lemma strip_empty: "strip s = [] \<Longrightarrow> \<forall>x \<in> set s. is_space x"
proof -
  assume "strip s = []"
  then have d: "dropWhile is_space (rev (dropWhile is_space s)) = []"
    by (simp add: strip_def)
  show ?thesis
  proof (cases "dropWhile is_space s = []")
    case True
    then show ?thesis by simp
  next
    case False
    then have "\<not> is_space (hd (dropWhile is_space s))" by (rule hd_dropWhile)
    moreover from d have "\<forall>x \<in> set (rev (dropWhile is_space s)). is_space x"
      by simp
    ultimately show ?thesis using False by (metis hd_in_set set_rev)
  qed
qed

lemma no_sentences_blank:
  assumes "sentences_of s = []"
  shows "\<forall>x \<in> set s. is_space x \<or> is_delim x"
proof
  fix x assume x: "x \<in> set s"
  show "is_space x \<or> is_delim x"
  proof (cases "is_delim x")
    case True
    then show ?thesis by simp
  next
    case False
    with x obtain piece where p: "piece \<in> set (re_split s)" and xp: "x \<in> set piece"
      using split_from_covers [of x "[]" s] by (auto simp: re_split_def)
    from assms p have "strip piece = []"
      by (auto simp: sentences_of_def filter_empty_conv)
    then show ?thesis using strip_empty xp by blast
  qed
qed

lemma truediv_nonzero: "b \<noteq> 0 \<Longrightarrow> truediv a b = Inr (real_of_int a / real_of_int b)"
  by (simp add: truediv_def)

lemma complexity_not_error: "calculate_complexity_score s \<noteq> Inl e"
proof (cases "sentences_of s = []")
  case True
  then show ?thesis by (simp add: calculate_complexity_score_def)
next
  case False
  then have n: "int (length (sentences_of s)) \<noteq> 0" by simp
  show ?thesis
  proof (cases "py_split s = []")
    case True
    then show ?thesis using False
      by (simp add: calculate_complexity_score_def truediv_nonzero [OF n])
  next
    case w: False
    then have "int (length (py_split s)) \<noteq> 0" by simp
    then show ?thesis using False w
      by (simp add: calculate_complexity_score_def truediv_nonzero [OF n] truediv_nonzero Let_def)
  qed
qed

lemma complexity_returns: "\<exists>c. calculate_complexity_score s = Inr c"
  using complexity_not_error [of s] by (cases "calculate_complexity_score s") auto

text \<open>
  C6. On the empty string, and on every text whose split at \<^verbatim>\<open>.\<close>, \<^verbatim>\<open>!\<close>, \<^verbatim>\<open>?\<close> leaves
  no piece with a character other than whitespace, \<open>detect_risk_clauses\<close> returns the empty
  list and \<open>calculate_complexity_score\<close> returns 1.0. The complexity score is a value, never
  an exception, for every text; \<open>detect_risk_clauses\<close> has no operation that can raise.
\<close>

theorem blank_text_results:
  "detect_risk_clauses [] = []
   \<and> calculate_complexity_score [] = Inr 1
   \<and> (sentences_of text = [] \<longrightarrow>
        detect_risk_clauses text = [] \<and> calculate_complexity_score text = Inr 1)
   \<and> (\<exists>c. calculate_complexity_score text = Inr c)"
proof -
  have blank: "detect_risk_clauses s = []" if "sentences_of s = []" for s
    using that no_sentences_blank [of s] detect_in_blank [OF catalog_starts_with_letters]
    by (simp add: detect_risk_clauses_def)
  have one: "calculate_complexity_score s = Inr 1" if "sentences_of s = []" for s
    using that by (simp add: calculate_complexity_score_def)
  have e: "sentences_of [] = []"
    by (simp add: sentences_of_def re_split_def strip_def)
  show ?thesis using blank one e complexity_returns by blast
qed

theorem blank_text_results_witness:
  "sentences_of (py_str ''  ?! ... '') = []
   \<and> detect_risk_clauses (py_str ''  ?! ... '') = []
   \<and> calculate_complexity_score (py_str ''  ?! ... '') = Inr 1"
proof -
  have "sentences_of (py_str ''  ?! ... '') = []"
    by (simp add: sentences_of_def re_split_def py_str_def strip_def is_delim_def is_space_def)
  then show ?thesis using blank_text_results [of "py_str ''  ?! ... ''"] by blast
qed

end
